theory Spec2Isabelle
  imports Main "HOL-Library.Word"
begin

section \<open>Data model of micro_router.hpp\<close>

text \<open>
  \<^verbatim>\<open>enum class Method : std::uint8_t { Any = 0, Get, Post, Put, Patch, Delete_, Head, Options }\<close>.
  The enumerator \<^verbatim>\<open>Delete_\<close> is written \<open>Delete\<close> here, since a trailing underscore is
  not a legal HOL name.
\<close>

datatype Method = Any | Get | Post | Put | Patch | Delete | Head | Options

text \<open>\<^verbatim>\<open>using Params = std::unordered_map<std::string, std::string>\<close>: a finite map with
  unique keys and no order.\<close>

type_synonym Params = "string \<rightharpoonup> string"

record Request =
  "method" :: Method
  path :: string
  params :: Params

text \<open>\<^verbatim>\<open>int status\<close> is a 32-bit machine integer; the router never computes with it.\<close>

record Response =
  status :: "32 word"
  body :: string

text \<open>\<^verbatim>\<open>std::function<void(const Request &, Response &)>\<close>: the handler reads the request and
  updates the response, so it is a function from the request and the old response to the new
  response. Handlers are supplied by the caller; they are taken to be callable and to return,
  and the router itself never looks inside one.\<close>

type_synonym Handler = "Request \<Rightarrow> Response \<Rightarrow> Response"

record Match =
  handler :: Handler
  params :: Params

datatype Kind = Static | Param

record Segment =
  kind :: Kind
  "text" :: string

record Route =
  "method" :: Method
  pattern :: string
  segments :: "Segment list"
  handler :: Handler

text \<open>The class \<^verbatim>\<open>Router\<close> has the single data member \<^verbatim>\<open>routes_\<close>.\<close>

record Router =
  routes :: "Route list"

definition empty_router :: Router where
  "empty_router = \<lparr> routes = [] \<rparr>"

section \<open>Tokenisation (namespace detail)\<close>

definition is_slash :: "char \<Rightarrow> bool" where
  "is_slash c \<longleftrightarrow> c = CHR ''/''"

text \<open>
  \<^verbatim>\<open>std::string_view::find(ch, pos)\<close>: the least index \<open>j \<ge> pos\<close> with \<open>p[j] == ch\<close>, or
  \<^verbatim>\<open>npos\<close> (here \<open>None\<close>) when there is none.
\<close>

definition find_char :: "string \<Rightarrow> char \<Rightarrow> nat \<Rightarrow> nat option" where
  "find_char p c pos =
     (let r = drop pos p
      in if c \<in> set r then Some (pos + length (takeWhile (\<lambda>x. x \<noteq> c) r)) else None)"

definition strip_query :: "string \<Rightarrow> string" where
  "strip_query p =
     (case find_char p (CHR ''?'') 0 of
        None \<Rightarrow> p
      | Some q \<Rightarrow> take q p)"

text \<open>The two loops of \<^verbatim>\<open>trim_slashes\<close>: \<^verbatim>\<open>remove_prefix(1)\<close> while the front is a slash,
  then \<^verbatim>\<open>remove_suffix(1)\<close> while the back is a slash.\<close>

function trim_leading :: "string \<Rightarrow> string" where
  "trim_leading p = (if p \<noteq> [] \<and> is_slash (hd p) then trim_leading (tl p) else p)"
  by pat_completeness auto
termination
  by (relation "measure length") auto

function trim_trailing :: "string \<Rightarrow> string" where
  "trim_trailing p = (if p \<noteq> [] \<and> is_slash (last p) then trim_trailing (butlast p) else p)"
  by pat_completeness auto
termination
  by (relation "measure length") auto

definition trim_slashes :: "string \<Rightarrow> string" where
  "trim_slashes p = trim_trailing (trim_leading p)"

text \<open>The \<^verbatim>\<open>while (i < path.size())\<close> loop of \<^verbatim>\<open>split_segments\<close>, with the output vector as
  an accumulator; \<^verbatim>\<open>path.substr(i, j - i)\<close> is \<open>take (j - i) (drop i p)\<close>.\<close>

function split_loop :: "string \<Rightarrow> nat \<Rightarrow> string list \<Rightarrow> string list" where
  "split_loop p i out =
     (if i < length p then
        (case find_char p (CHR ''/'') i of
           None \<Rightarrow> out @ [drop i p]
         | Some j \<Rightarrow> split_loop p (j + 1) (out @ [take (j - i) (drop i p)]))
      else out)"
  by pat_completeness auto
termination
  by (relation "measure (\<lambda>(p, i, out). length p - i)")
     (auto simp: find_char_def Let_def split: if_splits)

definition split_segments :: "string \<Rightarrow> string list" where
  "split_segments p =
     (let path1 = strip_query p;
          path2 = trim_slashes path1
      in if path2 = [] then [] else split_loop path2 0 [])"

section \<open>Pattern compilation\<close>

definition is_braced_param :: "string \<Rightarrow> bool" where
  "is_braced_param s \<longleftrightarrow> length s \<ge> 3 \<and> hd s = CHR ''{'' \<and> last s = CHR ''}''"

text \<open>\<^verbatim>\<open>s.substr(1, s.size() - 2)\<close>; only called when \<open>is_braced_param s\<close> holds.\<close>

definition unbrace :: "string \<Rightarrow> string" where
  "unbrace s = take (length s - 2) (drop 1 s)"

text \<open>The range-for loop of \<^verbatim>\<open>parse_pattern\<close> over the parts, \<open>segs\<close> being the vector that
  \<^verbatim>\<open>push_back\<close> extends.\<close>

fun parse_loop :: "string list \<Rightarrow> Segment list \<Rightarrow> Segment list" where
  "parse_loop [] segs = segs"
| "parse_loop (part # rest) segs =
     (if part \<noteq> [] \<and> hd part = CHR '':'' \<and> length part > 1 then
        parse_loop rest (segs @ [\<lparr> kind = Param, text = drop 1 part \<rparr>])
      else if is_braced_param part then
        (let name = unbrace part
         in if name \<noteq> [] then
              parse_loop rest (segs @ [\<lparr> kind = Param, text = name \<rparr>])
            else
              parse_loop rest (segs @ [\<lparr> kind = Static, text = part \<rparr>]))
      else
        parse_loop rest (segs @ [\<lparr> kind = Static, text = part \<rparr>]))"

definition parse_pattern :: "string \<Rightarrow> Segment list" where
  "parse_pattern pat = parse_loop (split_segments pat) []"

definition method_matches :: "Method \<Rightarrow> Method \<Rightarrow> bool" where
  "method_matches route_method req_method =
     (if route_method = Any then True else route_method = req_method)"

section \<open>The router\<close>

definition add :: "Router \<Rightarrow> Method \<Rightarrow> string \<Rightarrow> Handler \<Rightarrow> Router" where
  "add router m pat h =
     router\<lparr> routes := routes router @
       [\<lparr> Route.method = m, pattern = pat, segments = parse_pattern pat, handler = h \<rparr>] \<rparr>"

text \<open>\<^verbatim>\<open>std::unordered_map::emplace\<close> inserts only when the key is absent; an existing entry
  is kept as it is.\<close>

definition emplace :: "Params \<Rightarrow> string \<Rightarrow> string \<Rightarrow> Params" where
  "emplace ps k v = (case ps k of None \<Rightarrow> ps(k \<mapsto> v) | Some old \<Rightarrow> ps)"

text \<open>The inner loop of \<^verbatim>\<open>Router::match\<close> over the positions of one route. \<open>None\<close> is
  \<^verbatim>\<open>ok = false\<close> (the \<^verbatim>\<open>break\<close>), \<open>Some params\<close> is the loop running to its end with
  \<^verbatim>\<open>ok\<close> still true. It runs only after the size check, so \<open>parts ! i\<close> is in range.\<close>

function match_loop :: "Segment list \<Rightarrow> string list \<Rightarrow> nat \<Rightarrow> Params \<Rightarrow> Params option" where
  "match_loop segs parts i ps =
     (if i < length segs then
        (let seg = segs ! i; val = parts ! i
         in if kind seg = Static then
              (if val \<noteq> text seg then None else match_loop segs parts (i + 1) ps)
            else match_loop segs parts (i + 1) (emplace ps (text seg) val))
      else Some ps)"
  by pat_completeness auto
termination
  by (relation "measure (\<lambda>(segs, parts, i, ps). length segs - i)") auto

text \<open>The outer loop of \<^verbatim>\<open>Router::match\<close> over \<^verbatim>\<open>routes_\<close>, in registration order.\<close>

fun match_routes :: "Route list \<Rightarrow> Method \<Rightarrow> string list \<Rightarrow> Match option" where
  "match_routes [] m parts = None"
| "match_routes (r # rs) m parts =
     (if \<not> method_matches (Route.method r) m then match_routes rs m parts
      else if length (segments r) \<noteq> length parts then match_routes rs m parts
      else (case match_loop (segments r) parts 0 Map.empty of
              None \<Rightarrow> match_routes rs m parts
            | Some ps \<Rightarrow> Some \<lparr> Match.handler = Route.handler r, params = ps \<rparr>))"

definition match :: "Router \<Rightarrow> Method \<Rightarrow> string \<Rightarrow> Match option" where
  "match router m p = match_routes (routes router) m (split_segments p)"

text \<open>\<^verbatim>\<open>Router::dispatch\<close> returns the flag together with the request and the response as
  they are after the call.\<close>

definition dispatch :: "Router \<Rightarrow> Request \<Rightarrow> Response \<Rightarrow> bool \<times> Request \<times> Response" where
  "dispatch router req res =
     (case match router (Request.method req) (path req) of
        None \<Rightarrow> (False, req, res)
      | Some m \<Rightarrow>
          (let req' = req\<lparr> Request.params := Match.params m \<rparr>
           in (True, req', Match.handler m req' res)))"

section \<open>Specification-side definitions and test fixtures\<close>

text \<open>The tokens of a pattern or path in the words of the specification (4.1, steps 1 to
  4): cut the string at the first \<open>?\<close>, drop all leading and all trailing slashes, and, when
  something is left, split it at every slash; an empty token between two slashes is kept.
  \<open>spec_split_acc tok s\<close> splits \<open>s\<close> at every slash, \<open>tok\<close> being the token read so far.\<close>

fun spec_split_acc :: "string \<Rightarrow> string \<Rightarrow> string list" where
  "spec_split_acc tok [] = [tok]"
| "spec_split_acc tok (c # cs) =
     (if c = CHR ''/'' then tok # spec_split_acc [] cs else spec_split_acc (tok @ [c]) cs)"

definition spec_tokens :: "string \<Rightarrow> string list" where
  "spec_tokens p =
     (let stripped = takeWhile (\<lambda>c. c \<noteq> CHR ''?'') p;
          trimmed = rev (dropWhile (\<lambda>c. c = CHR ''/'') (rev (dropWhile (\<lambda>c. c = CHR ''/'') stripped)))
      in if trimmed = [] then [] else spec_split_acc [] trimmed)"

text \<open>The classification of one token in the words of the specification: a leading colon
  with total length at least 2, or braces around a non-empty name, give a parameter; the token
  \<open>{}\<close> and everything else is literal.\<close>

definition spec_classify :: "string \<Rightarrow> Segment" where
  "spec_classify tok =
     (if length tok \<ge> 2 \<and> hd tok = CHR '':'' then \<lparr> kind = Param, text = tl tok \<rparr>
      else if length tok \<ge> 3 \<and> hd tok = CHR ''{'' \<and> last tok = CHR ''}''
        then \<lparr> kind = Param, text = butlast (tl tok) \<rparr>
      else if tok = ''{}'' then \<lparr> kind = Static, text = ''{}'' \<rparr>
      else \<lparr> kind = Static, text = tok \<rparr>)"

text \<open>The handler of the \<^verbatim>\<open>/health\<close> route in tests/test_basic.cpp.\<close>

definition ok_handler :: Handler where
  "ok_handler req res = res\<lparr> status := 200, body := ''ok'' \<rparr>"

text \<open>A segment that is a parameter called \<open>n\<close>.\<close>

definition names_param :: "Segment \<Rightarrow> string \<Rightarrow> bool" where
  "names_param seg n \<longleftrightarrow> kind seg = Param \<and> text seg = n"

text \<open>The three checks that \<^verbatim>\<open>Router::match\<close> makes on one route, in the order of the
  source: the method check, the segment-count check and the positional comparison.\<close>

definition route_passes :: "Route \<Rightarrow> Method \<Rightarrow> string list \<Rightarrow> bool" where
  "route_passes r m parts \<longleftrightarrow>
     method_matches (Route.method r) m
     \<and> length (segments r) = length parts
     \<and> match_loop (segments r) parts 0 Map.empty \<noteq> None"

text \<open>Reading one captured parameter from the result of \<^verbatim>\<open>match\<close>, as the tests do with
  \<^verbatim>\<open>params.find\<close>.\<close>

definition param_of :: "Match option \<Rightarrow> string \<Rightarrow> string option" where
  "param_of res k = (case res of None \<Rightarrow> None | Some mt \<Rightarrow> Match.params mt k)"

text \<open>The handler of GET \<^verbatim>\<open>/items\<close> in examples/multiple_methods.cpp.\<close>

definition items_handler :: Handler where
  "items_handler req res = res\<lparr> body := ''List items'' \<rparr>"

text \<open>The routes that \<^verbatim>\<open>add\<close> builds for the patterns used as examples below.\<close>

definition users_id_route :: Route where
  "users_id_route = \<lparr> Route.method = Get, pattern = ''/users/:id'',
     segments = parse_pattern ''/users/:id'', handler = ok_handler \<rparr>"

definition users_me_route :: Route where
  "users_me_route = \<lparr> Route.method = Get, pattern = ''/users/me'',
     segments = parse_pattern ''/users/me'', handler = items_handler \<rparr>"

definition a_x_x_route :: Route where
  "a_x_x_route = \<lparr> Route.method = Get, pattern = ''/a/:x/:x'',
     segments = parse_pattern ''/a/:x/:x'', handler = ok_handler \<rparr>"

section \<open>Auxiliary facts\<close>

text \<open>The loops are unfolded by hand, under their guards.\<close>

declare trim_leading.simps [simp del]
declare trim_trailing.simps [simp del]
declare split_loop.simps [simp del]
declare match_loop.simps [simp del]

subsection \<open>Tokenisation\<close>

lemma takeWhile_stop: "\<not> P y \<Longrightarrow> takeWhile P (xs @ y # ys) = takeWhile P xs"
  by (induction xs) auto

lemma takeWhile_neq_all: "c \<notin> set p \<Longrightarrow> takeWhile (\<lambda>x. x \<noteq> c) p = p"
  by (induction p) auto

lemma dropWhile_all: "\<forall>c \<in> set s. P c \<Longrightarrow> dropWhile P s = []"
  by (induction s) auto

lemma takeWhile_replicate_append:
  "P c \<Longrightarrow> takeWhile P (replicate n c @ x) = replicate n c @ takeWhile P x"
  by (induction n) auto

lemma dropWhile_replicate_append:
  "P c \<Longrightarrow> dropWhile P (replicate n c @ x) = dropWhile P x"
  by (induction n) auto

lemma strip_query_takeWhile: "strip_query p = takeWhile (\<lambda>c. c \<noteq> CHR ''?'') p"
proof (cases "CHR ''?'' \<in> set p")
  case True
  then show ?thesis
    by (simp add: strip_query_def find_char_def takeWhile_eq_take [symmetric])
next
  case False
  then show ?thesis
    by (simp add: strip_query_def find_char_def takeWhile_neq_all)
qed

lemma trim_leading_dropWhile: "trim_leading p = dropWhile is_slash p"
proof (induction p)
  case Nil
  show ?case by (simp add: trim_leading.simps)
next
  case (Cons c cs)
  then show ?case by (simp add: trim_leading.simps [of "c # cs"])
qed

lemma trim_trailing_snoc:
  "trim_trailing (p @ [c]) = (if is_slash c then trim_trailing p else p @ [c])"
  by (simp add: trim_trailing.simps [of "p @ [c]"])

lemma trim_trailing_rev: "trim_trailing p = rev (dropWhile is_slash (rev p))"
proof (induction p rule: rev_induct)
  case Nil
  show ?case by (simp add: trim_trailing.simps)
next
  case (snoc c cs)
  then show ?case by (simp add: trim_trailing_snoc)
qed

lemma strip_query_append_query: "strip_query (p @ ''?'' @ q) = strip_query p"
  by (simp add: strip_query_takeWhile takeWhile_stop)

lemma trim_slashes_pad:
  "trim_slashes (replicate n (CHR ''/'') @ s @ replicate m (CHR ''/'')) = trim_slashes s"
proof -
  let ?A = "replicate n (CHR ''/'')" and ?B = "replicate m (CHR ''/'')"
  have A: "dropWhile is_slash (?A @ x) = dropWhile is_slash x" for x
    by (rule dropWhile_replicate_append) (simp add: is_slash_def)
  have B: "dropWhile is_slash (rev ?B @ y) = dropWhile is_slash y" for y
    unfolding rev_replicate by (rule dropWhile_replicate_append) (simp add: is_slash_def)
  show ?thesis
  proof (cases "\<forall>c \<in> set s. is_slash c")
    case True
    moreover have "is_slash (CHR ''/'')"
      by (simp add: is_slash_def)
    ultimately have "\<forall>c \<in> set (s @ ?B). is_slash c"
      by auto
    then have e1: "dropWhile is_slash (s @ ?B) = []"
      by (rule dropWhile_all)
    have e2: "dropWhile is_slash s = []"
      using True by (rule dropWhile_all)
    show ?thesis
      by (simp only: trim_slashes_def trim_leading_dropWhile A e1 e2)
  next
    case False
    then obtain c where c: "c \<in> set s" "\<not> is_slash c" by blast
    then have e: "dropWhile is_slash (s @ ?B) = dropWhile is_slash s @ ?B"
      by (rule dropWhile_append1)
    show ?thesis
      by (simp only: trim_slashes_def trim_leading_dropWhile trim_trailing_rev A e rev_append B)
  qed
qed

lemma strip_query_pad:
  "trim_slashes (strip_query (replicate n (CHR ''/'') @ s @ replicate m (CHR ''/'')))
   = trim_slashes (strip_query s)"
proof -
  let ?A = "replicate n (CHR ''/'')" and ?B = "replicate m (CHR ''/'')"
  let ?nq = "\<lambda>c. c \<noteq> CHR ''?''"
  have A: "takeWhile ?nq (?A @ x) = ?A @ takeWhile ?nq x" for x
    by (rule takeWhile_replicate_append) simp
  show ?thesis
  proof (cases "CHR ''?'' \<in> set s")
    case True
    then obtain u v where s: "s = u @ CHR ''?'' # v"
      by (auto simp: in_set_conv_decomp)
    have "takeWhile ?nq (s @ ?B) = takeWhile ?nq s"
      unfolding s by (simp only: append_assoc append_Cons takeWhile_stop not_not)
    then have "strip_query (?A @ s @ ?B) = ?A @ strip_query s"
      by (simp only: strip_query_takeWhile A)
    moreover have "trim_slashes (?A @ strip_query s) = trim_slashes (strip_query s)"
      using trim_slashes_pad [of n "strip_query s" 0] by simp
    ultimately show ?thesis by simp
  next
    case False
    then have "CHR ''?'' \<notin> set (?A @ s @ ?B)"
      by auto
    then have "strip_query (?A @ s @ ?B) = ?A @ s @ ?B"
      unfolding strip_query_takeWhile by (rule takeWhile_neq_all)
    moreover have "strip_query s = s"
      unfolding strip_query_takeWhile using False by (rule takeWhile_neq_all)
    ultimately show ?thesis
      by (simp only: trim_slashes_pad)
  qed
qed

lemma split_segments_pad:
  "split_segments (replicate n (CHR ''/'') @ s @ replicate m (CHR ''/'')) = split_segments s"
  unfolding split_segments_def Let_def strip_query_pad ..

lemma slashes_replicate:
  "\<forall>c \<in> set xs. is_slash c \<Longrightarrow> xs = replicate (length xs) (CHR ''/'')"
  by (induction xs) (simp_all add: is_slash_def)

lemma trim_trailing_decomp:
  "\<exists>j. y = trim_trailing y @ replicate j (CHR ''/'')"
proof -
  let ?t = "takeWhile is_slash (rev y)"
  have "rev y = ?t @ dropWhile is_slash (rev y)"
    by simp
  then have "y = rev (dropWhile is_slash (rev y)) @ rev ?t"
    by (metis rev_append rev_rev_ident)
  moreover have "\<forall>c \<in> set (rev ?t). is_slash c"
    by (auto dest: set_takeWhileD)
  then have "rev ?t = replicate (length (rev ?t)) (CHR ''/'')"
    by (rule slashes_replicate)
  ultimately have "y = trim_trailing y @ replicate (length (rev ?t)) (CHR ''/'')"
    by (simp only: trim_trailing_rev)
  then show ?thesis ..
qed

lemma trim_leading_decomp:
  "\<exists>i. p = replicate i (CHR ''/'') @ trim_leading p"
proof -
  let ?t = "takeWhile is_slash p"
  have "\<forall>c \<in> set ?t. is_slash c"
    by (auto dest: set_takeWhileD)
  then have "?t = replicate (length ?t) (CHR ''/'')"
    by (rule slashes_replicate)
  moreover have "p = ?t @ dropWhile is_slash p"
    by simp
  ultimately have "p = replicate (length ?t) (CHR ''/'') @ trim_leading p"
    by (simp only: trim_leading_dropWhile)
  then show ?thesis ..
qed

lemma trim_slashes_decomp:
  "\<exists>i j. p = replicate i (CHR ''/'') @ trim_slashes p @ replicate j (CHR ''/'')"
proof -
  obtain i where i: "p = replicate i (CHR ''/'') @ trim_leading p"
    using trim_leading_decomp by blast
  obtain j where j: "trim_leading p = trim_trailing (trim_leading p) @ replicate j (CHR ''/'')"
    using trim_trailing_decomp by blast
  have "p = replicate i (CHR ''/'') @ trim_slashes p @ replicate j (CHR ''/'')"
    unfolding trim_slashes_def using i j by metis
  then show ?thesis by blast
qed

lemma trim_trailing_no_trailing: "trim_trailing y \<noteq> t @ ''/''"
proof
  assume "trim_trailing y = t @ ''/''"
  then have e: "dropWhile is_slash (rev y) = CHR ''/'' # rev t"
    by (simp add: trim_trailing_rev rev_swap)
  then have "dropWhile is_slash (rev y) \<noteq> []"
    by simp
  then have "\<not> is_slash (hd (dropWhile is_slash (rev y)))"
    by (rule hd_dropWhile)
  with e show False
    by (simp add: is_slash_def)
qed

lemma trim_leading_no_leading: "trim_leading p \<noteq> CHR ''/'' # t"
proof
  assume e: "trim_leading p = CHR ''/'' # t"
  then have "dropWhile is_slash p \<noteq> []"
    by (simp add: trim_leading_dropWhile)
  then have "\<not> is_slash (hd (dropWhile is_slash p))"
    by (rule hd_dropWhile)
  with e show False
    by (simp add: is_slash_def trim_leading_dropWhile)
qed

lemma trim_slashes_no_trailing: "trim_slashes p \<noteq> t @ ''/''"
  unfolding trim_slashes_def by (rule trim_trailing_no_trailing)

lemma trim_slashes_no_leading: "trim_slashes p \<noteq> CHR ''/'' # t"
proof
  assume e: "trim_slashes p = CHR ''/'' # t"
  obtain j where j: "trim_leading p = trim_slashes p @ replicate j (CHR ''/'')"
    unfolding trim_slashes_def using trim_trailing_decomp by blast
  then have "trim_leading p = CHR ''/'' # (t @ replicate j (CHR ''/''))"
    using e by simp
  then show False
    using trim_leading_no_leading by blast
qed

subsection \<open>The tokens are those of the specification\<close>

lemma spec_split_acc_no_slash:
  "CHR ''/'' \<notin> set s \<Longrightarrow> spec_split_acc tok s = [tok @ s]"
  by (induction s arbitrary: tok) auto

lemma spec_split_acc_slash:
  "CHR ''/'' \<in> set s \<Longrightarrow>
   spec_split_acc tok s =
     (tok @ takeWhile (\<lambda>c. c \<noteq> CHR ''/'') s)
       # spec_split_acc [] (tl (dropWhile (\<lambda>c. c \<noteq> CHR ''/'') s))"
  by (induction s arbitrary: tok) auto

lemma find_char_None: "find_char p c i = None \<longleftrightarrow> c \<notin> set (drop i p)"
  by (simp add: find_char_def Let_def)

lemma find_char_Some:
  "find_char p c i = Some j \<longleftrightarrow>
     c \<in> set (drop i p) \<and> j = i + length (takeWhile (\<lambda>x. x \<noteq> c) (drop i p))"
  by (auto simp: find_char_def Let_def)

lemma takeWhile_neq_hit:
  "c \<in> set r \<Longrightarrow>
   length (takeWhile (\<lambda>x. x \<noteq> c) r) < length r \<and> r ! length (takeWhile (\<lambda>x. x \<noteq> c) r) = c"
  by (induction r) auto

lemma split_loop_spec:
  assumes "p \<noteq> []" and "last p \<noteq> CHR ''/''"
  shows "i < length p \<Longrightarrow> split_loop p i out = out @ spec_split_acc [] (drop i p)"
proof (induction d \<equiv> "length p - i" arbitrary: i out rule: less_induct)
  case less
  let ?r = "drop i p"
  let ?nz = "\<lambda>c. c \<noteq> CHR ''/''"
  show ?case
  proof (cases "CHR ''/'' \<in> set ?r")
    case False
    then have "find_char p (CHR ''/'') i = None"
      by (simp add: find_char_None)
    then have "split_loop p i out = out @ [?r]"
      using less.prems by (simp add: split_loop.simps [of p i out])
    then show ?thesis
      using False by (simp add: spec_split_acc_no_slash)
  next
    case True
    let ?k = "length (takeWhile ?nz ?r)"
    let ?j = "i + ?k"
    have f: "find_char p (CHR ''/'') i = Some ?j"
      using True by (simp add: find_char_Some)
    have step: "split_loop p i out = split_loop p (?j + 1) (out @ [take (?j - i) ?r])"
      using less.prems f by (simp add: split_loop.simps [of p i out])
    have tok: "take (?j - i) ?r = takeWhile ?nz ?r"
      by (simp add: takeWhile_eq_take [symmetric])
    have klt: "?k < length ?r"
      using takeWhile_neq_hit [OF True] by blast
    then have jlt: "?j < length p"
      by simp
    have "?r ! ?k = CHR ''/''"
      using takeWhile_neq_hit [OF True] by blast
    then have pj: "p ! ?j = CHR ''/''"
      using jlt by simp
    have "?j \<noteq> length p - 1"
      using pj assms by (auto simp: last_conv_nth)
    with jlt have j1: "?j + 1 < length p"
      by simp
    have rest: "tl (dropWhile ?nz ?r) = drop (?j + 1) p"
      by (simp add: dropWhile_eq_drop drop_Suc [symmetric] tl_drop add.commute)
    have "split_loop p (?j + 1) (out @ [take (?j - i) ?r])
        = (out @ [take (?j - i) ?r]) @ spec_split_acc [] (drop (?j + 1) p)"
      using j1 less.prems by (intro less.hyps) simp_all
    then show ?thesis
      using True by (simp only: step tok spec_split_acc_slash [OF True] rest append_Nil
          append_assoc append_Cons)
  qed
qed

lemma is_slash_eq: "is_slash = (\<lambda>c. c = CHR ''/'')"
  by (simp add: is_slash_def fun_eq_iff)

lemma split_segments_spec_tokens: "split_segments p = spec_tokens p"
proof -
  let ?t = "trim_slashes (strip_query p)"
  have t: "?t = rev (dropWhile (\<lambda>c. c = CHR ''/'')
      (rev (dropWhile (\<lambda>c. c = CHR ''/'') (takeWhile (\<lambda>c. c \<noteq> CHR ''?'') p))))"
    by (simp only: trim_slashes_def trim_leading_dropWhile trim_trailing_rev
        strip_query_takeWhile is_slash_eq)
  show ?thesis
  proof (cases "?t = []")
    case True
    then show ?thesis
      unfolding split_segments_def spec_tokens_def Let_def t [symmetric] by simp
  next
    case False
    have "last ?t \<noteq> CHR ''/''"
    proof
      assume "last ?t = CHR ''/''"
      with False have "?t = butlast ?t @ ''/''"
        by (metis append_butlast_last_id)
      then show False
        using trim_slashes_no_trailing by blast
    qed
    with False have "split_loop ?t 0 [] = [] @ spec_split_acc [] (drop 0 ?t)"
      by (intro split_loop_spec) simp_all
    then show ?thesis
      unfolding split_segments_def spec_tokens_def Let_def t [symmetric] using False by simp
  qed
qed

lemma parse_example:
  "parse_pattern ''/users/:id/posts/{postId}/{}/:'' =
     [\<lparr> kind = Static, text = ''users'' \<rparr>, \<lparr> kind = Param, text = ''id'' \<rparr>,
      \<lparr> kind = Static, text = ''posts'' \<rparr>, \<lparr> kind = Param, text = ''postId'' \<rparr>,
      \<lparr> kind = Static, text = ''{}'' \<rparr>, \<lparr> kind = Static, text = '':'' \<rparr>]"
  by code_simp

lemma parse_root: "parse_pattern ''/'' = []"
  by code_simp

lemma spec_tokens_example:
  "spec_tokens ''/users/:id/posts/{postId}/{}/:'' = [''users'', '':id'', ''posts'', ''{postId}'', ''{}'', '':'']"
  by code_simp

subsection \<open>Pattern compilation\<close>

lemma unbrace_butlast: "unbrace s = butlast (tl s)"
  by (simp add: unbrace_def butlast_conv_take drop_Suc numeral_2_eq_2)

lemma unbrace_nonempty: "length s \<ge> 3 \<Longrightarrow> unbrace s \<noteq> []"
  by (simp add: unbrace_def)

lemma parse_loop_map: "parse_loop toks segs = segs @ map spec_classify toks"
proof (induction toks arbitrary: segs)
  case Nil
  show ?case by simp
next
  case (Cons tok toks)
  have colon: "(tok \<noteq> [] \<and> hd tok = CHR '':'' \<and> length tok > 1)
      \<longleftrightarrow> (length tok \<ge> 2 \<and> hd tok = CHR '':'')"
    by (cases tok) (auto simp: Suc_le_eq)
  have brace: "is_braced_param tok \<Longrightarrow> unbrace tok \<noteq> []"
    by (simp add: is_braced_param_def unbrace_nonempty)
  show ?case
  proof (cases "tok \<noteq> [] \<and> hd tok = CHR '':'' \<and> length tok > 1")
    case True
    then show ?thesis
      using colon by (simp add: Cons.IH spec_classify_def drop_Suc)
  next
    case False
    then have ncolon: "\<not> (length tok \<ge> 2 \<and> hd tok = CHR '':'')"
      using colon by blast
    show ?thesis
    proof (cases "is_braced_param tok")
      case True
      then have "length tok \<ge> 3 \<and> hd tok = CHR ''{'' \<and> last tok = CHR ''}''"
        by (simp add: is_braced_param_def)
      then show ?thesis
        using False ncolon True brace [OF True]
        by (simp add: Cons.IH spec_classify_def Let_def unbrace_butlast drop_Suc)
    next
      case nb: False
      then have "\<not> (length tok \<ge> 3 \<and> hd tok = CHR ''{'' \<and> last tok = CHR ''}'')"
        by (simp add: is_braced_param_def)
      then show ?thesis
        using False ncolon nb by (simp add: Cons.IH spec_classify_def drop_Suc)
    qed
  qed
qed

subsection \<open>Matching\<close>

lemma split_health: "split_segments ''/health'' = [''health'']"
  by code_simp

lemma parse_health: "parse_pattern ''/health'' = [\<lparr> kind = Static, text = ''health'' \<rparr>]"
  by code_simp

lemma method_matches_Any_request: "method_matches rm Any \<longleftrightarrow> rm = Any"
  by (auto simp add: method_matches_def)

lemma match_routes_Any_filter:
  "match_routes rs Any parts = match_routes (filter (\<lambda>r. Route.method r = Any) rs) Any parts"
  by (induction rs) (simp_all add: method_matches_Any_request split: option.splits)

lemma split_a_examples:
  "split_segments ''/a/'' = [''a'']" "split_segments ''/a'' = [''a'']"
  "split_segments ''//a//'' = [''a'']"
  by code_simp+

lemma match_loop_end: "\<not> i < length segs \<Longrightarrow> match_loop segs parts i ps = Some ps"
  by (simp add: match_loop.simps [of segs parts i ps])

lemma match_loop_step:
  "i < length segs \<Longrightarrow> match_loop segs parts i ps =
     (if kind (segs ! i) = Static then
        (if parts ! i \<noteq> text (segs ! i) then None else match_loop segs parts (Suc i) ps)
      else match_loop segs parts (Suc i) (emplace ps (text (segs ! i)) (parts ! i)))"
  by (simp add: match_loop.simps [of segs parts i ps] Let_def)

lemma emplace_same: "ps n = None \<Longrightarrow> emplace ps n v n = Some v"
  by (simp add: emplace_def)

lemma emplace_kept: "ps n = Some v \<Longrightarrow> emplace ps k w n = Some v"
  by (auto simp: emplace_def split: option.splits)

lemma emplace_other: "k \<noteq> n \<Longrightarrow> emplace ps k w n = ps n"
  by (simp add: emplace_def split: option.splits)

lemma match_loop_None_iff:
  "match_loop segs parts i ps = None \<longleftrightarrow>
     (\<exists>j. i \<le> j \<and> j < length segs \<and> kind (segs ! j) = Static \<and> parts ! j \<noteq> text (segs ! j))"
proof (induction d \<equiv> "length segs - i" arbitrary: i ps)
  case 0
  then show ?case by (simp add: match_loop_end)
next
  case (Suc d)
  then have i: "i < length segs" and d: "d = length segs - Suc i"
    by simp_all
  have split: "(\<exists>j. i \<le> j \<and> Q j) \<longleftrightarrow> Q i \<or> (\<exists>j. Suc i \<le> j \<and> Q j)" for Q
    by (metis Suc_leI le_eq_less_or_eq Suc_le_lessD order_refl)
  show ?case
    unfolding match_loop_step [OF i] split [of "\<lambda>j. j < length segs \<and> kind (segs ! j) = Static \<and> parts ! j \<noteq> text (segs ! j)"]
    using Suc.hyps(1) [OF d] i
    by auto
qed

lemma match_loop_keep:
  "match_loop segs parts i ps = Some ps' \<Longrightarrow> ps n = Some v \<Longrightarrow> ps' n = Some v"
proof (induction d \<equiv> "length segs - i" arbitrary: i ps)
  case 0
  then show ?case by (simp add: match_loop_end)
next
  case (Suc d)
  then have i: "i < length segs" and d: "d = length segs - Suc i"
    by simp_all
  show ?case
    using Suc.prems Suc.hyps(1) [OF d] emplace_kept [of ps n v]
    by (auto simp: match_loop_step [OF i] split: if_splits)
qed

lemma match_loop_absent:
  "match_loop segs parts i ps = Some ps' \<Longrightarrow>
   \<forall>j. i \<le> j \<and> j < length segs \<longrightarrow> \<not> names_param (segs ! j) n \<Longrightarrow> ps' n = ps n"
proof (induction d \<equiv> "length segs - i" arbitrary: i ps)
  case 0
  then show ?case by (simp add: match_loop_end)
next
  case (Suc d)
  then have i: "i < length segs" and d: "d = length segs - Suc i"
    by simp_all
  have later: "\<forall>j. Suc i \<le> j \<and> j < length segs \<longrightarrow> \<not> names_param (segs ! j) n"
    using Suc.prems(2) by simp
  have here: "\<not> names_param (segs ! i) n"
    using Suc.prems(2) i by simp
  show ?case
  proof (cases "kind (segs ! i) = Static")
    case True
    with Suc.prems(1) have run: "match_loop segs parts (Suc i) ps = Some ps'"
      by (simp add: match_loop_step [OF i] split: if_splits)
    show ?thesis
      by (rule Suc.hyps(1) [OF d run later])
  next
    case False
    with Suc.prems(1)
    have run: "match_loop segs parts (Suc i) (emplace ps (text (segs ! i)) (parts ! i)) = Some ps'"
      by (simp add: match_loop_step [OF i])
    have "ps' n = emplace ps (text (segs ! i)) (parts ! i) n"
      by (rule Suc.hyps(1) [OF d run later])
    moreover have "text (segs ! i) \<noteq> n"
      using here False by (cases "kind (segs ! i)") (simp_all add: names_param_def)
    ultimately show ?thesis
      by (simp add: emplace_other)
  qed
qed

lemma match_loop_first:
  "match_loop segs parts i ps = Some ps' \<Longrightarrow> ps n = None \<Longrightarrow> i \<le> j \<Longrightarrow> j < length segs \<Longrightarrow>
   names_param (segs ! j) n \<Longrightarrow> \<forall>k. i \<le> k \<and> k < j \<longrightarrow> \<not> names_param (segs ! k) n \<Longrightarrow>
   ps' n = Some (parts ! j)"
proof (induction d \<equiv> "j - i" arbitrary: i ps)
  case 0
  then have ij: "i = j" by simp
  have i: "i < length segs" using 0 ij by simp
  have "kind (segs ! i) \<noteq> Static" and "text (segs ! i) = n"
    using "0.prems"(5) ij by (simp_all add: names_param_def)
  with "0.prems"(1)
  have "match_loop segs parts (Suc i) (emplace ps n (parts ! i)) = Some ps'"
    by (simp add: match_loop_step [OF i])
  moreover have "emplace ps n (parts ! i) n = Some (parts ! i)"
    using "0.prems"(2) by (rule emplace_same)
  ultimately show ?case
    unfolding ij by (rule match_loop_keep)
next
  case (Suc d)
  then have lt: "i < j" and d: "d = j - Suc i"
    by simp_all
  have i: "i < length segs" using lt Suc.prems(4) by simp
  have here: "\<not> names_param (segs ! i) n"
    using Suc.prems(6) lt by simp
  have later: "\<forall>k. Suc i \<le> k \<and> k < j \<longrightarrow> \<not> names_param (segs ! k) n"
    using Suc.prems(6) by simp
  have le: "Suc i \<le> j" using lt by simp
  show ?case
  proof (cases "kind (segs ! i) = Static")
    case True
    with Suc.prems(1) have run: "match_loop segs parts (Suc i) ps = Some ps'"
      by (simp add: match_loop_step [OF i] split: if_splits)
    show ?thesis
      by (rule Suc.hyps(1) [OF d run Suc.prems(2) le Suc.prems(4,5) later])
  next
    case False
    have ne: "text (segs ! i) \<noteq> n"
      using here False by (cases "kind (segs ! i)") (simp_all add: names_param_def)
    from False Suc.prems(1)
    have run: "match_loop segs parts (Suc i) (emplace ps (text (segs ! i)) (parts ! i)) = Some ps'"
      by (simp add: match_loop_step [OF i])
    have free: "emplace ps (text (segs ! i)) (parts ! i) n = None"
      using ne Suc.prems(2) by (simp add: emplace_other)
    show ?thesis
      by (rule Suc.hyps(1) [OF d run free le Suc.prems(4,5) later])
  qed
qed

lemma match_routes_find:
  "match_routes rs m parts =
     (case find (\<lambda>r. route_passes r m parts) rs of
        None \<Rightarrow> None
      | Some r \<Rightarrow> Some \<lparr> Match.handler = Route.handler r,
                       params = the (match_loop (segments r) parts 0 Map.empty) \<rparr>)"
  by (induction rs) (auto simp: route_passes_def split: option.splits)

lemma find_first:
  "\<forall>x \<in> set pre. \<not> P x \<Longrightarrow> P r \<Longrightarrow> find P (pre @ r # post) = Some r"
  by (induction pre) simp_all

lemma match_routes_append:
  "match_routes (rs @ rs') m parts =
     (case match_routes rs m parts of None \<Rightarrow> match_routes rs' m parts | Some x \<Rightarrow> Some x)"
  by (induction rs) (simp_all split: option.splits)

lemma match_routes_Some_route:
  "match_routes rs m parts = Some mt \<Longrightarrow>
   \<exists>r \<in> set rs. length (segments r) = length parts \<and> Route.handler r = Match.handler mt"
  by (induction rs) (auto split: if_splits option.splits)

lemma match_routes_no_count:
  "\<forall>r \<in> set rs. length (segments r) \<noteq> length parts \<Longrightarrow> match_routes rs m parts = None"
  by (induction rs) simp_all

lemma first_match_prefix:
  assumes "routes router = pre @ r # post"
    and "\<forall>r' \<in> set pre. \<not> route_passes r' m (split_segments p)"
    and "route_passes r m (split_segments p)"
  shows "\<exists>ps. match_loop (segments r) (split_segments p) 0 Map.empty = Some ps
       \<and> match router m p = Some \<lparr> Match.handler = Route.handler r, params = ps \<rparr>"
proof -
  from assms(3) obtain ps where ps: "match_loop (segments r) (split_segments p) 0 Map.empty = Some ps"
    by (auto simp: route_passes_def)
  have "find (\<lambda>r. route_passes r m (split_segments p)) (routes router) = Some r"
    unfolding assms(1) using assms(2,3) by (rule find_first)
  then have "match router m p = Some \<lparr> Match.handler = Route.handler r, params = ps \<rparr>"
    by (simp add: match_def match_routes_find ps)
  with ps show ?thesis by blast
qed

lemma split_users_me: "split_segments ''/users/me'' = [''users'', ''me'']"
  by code_simp

lemma parse_users_id:
  "parse_pattern ''/users/:id'' = [\<lparr> kind = Static, text = ''users'' \<rparr>, \<lparr> kind = Param, text = ''id'' \<rparr>]"
  by code_simp

lemma parse_users_me:
  "parse_pattern ''/users/me'' = [\<lparr> kind = Static, text = ''users'' \<rparr>, \<lparr> kind = Static, text = ''me'' \<rparr>]"
  by code_simp

lemma match_loop_users_id:
  "match_loop [\<lparr> kind = Static, text = ''users'' \<rparr>, \<lparr> kind = Param, text = ''id'' \<rparr>]
     [''users'', ''me''] 0 Map.empty = Some [''id'' \<mapsto> ''me'']"
  by (simp add: match_loop_step match_loop_end emplace_def)

lemma match_loop_users_me:
  "match_loop [\<lparr> kind = Static, text = ''users'' \<rparr>, \<lparr> kind = Static, text = ''me'' \<rparr>]
     [''users'', ''me''] 0 Map.empty = Some Map.empty"
  by (simp add: match_loop_step match_loop_end emplace_def)

lemma param_before_static:
  "match (add (add empty_router Get ''/users/:id'' h1) Get ''/users/me'' h2) Get ''/users/me''
     = Some \<lparr> Match.handler = h1, params = [''id'' \<mapsto> ''me''] \<rparr>"
  by (simp add: match_def add_def empty_router_def method_matches_def
      split_users_me parse_users_id parse_users_me match_loop_users_id)

lemma split_a: "split_segments ''/a'' = [''a'']"
  by code_simp

lemma split_a_b_c: "split_segments ''/a/b/c'' = [''a'', ''b'', ''c'']"
  by code_simp

lemma split_a_x: "split_segments ''/a/x'' = [''a'', ''x'']"
  by code_simp

lemma parse_a_b:
  "parse_pattern ''/a/:b'' = [\<lparr> kind = Static, text = ''a'' \<rparr>, \<lparr> kind = Param, text = ''b'' \<rparr>]"
  by code_simp

lemma match_add:
  "match (add router rm pat h) m p =
     (case match router m p of
        None \<Rightarrow> match_routes [\<lparr> Route.method = rm, pattern = pat,
                   segments = parse_pattern pat, handler = h \<rparr>] m (split_segments p)
      | Some x \<Rightarrow> Some x)"
  by (simp add: match_def add_def match_routes_append)

lemma a_b_skips_a: "match (add router rm ''/a/:b'' h) m ''/a'' = match router m ''/a''"
  by (simp add: match_add parse_a_b split_a split: option.splits)

lemma a_b_skips_a_b_c: "match (add router rm ''/a/:b'' h) m ''/a/b/c'' = match router m ''/a/b/c''"
  by (simp add: match_add parse_a_b split_a_b_c split: option.splits)

lemma match_a_x:
  "match (add empty_router Get ''/a/:b'' ok_handler) Get ''/a/x''
     = Some \<lparr> Match.handler = ok_handler, params = [''b'' \<mapsto> ''x''] \<rparr>"
  by (simp add: match_def add_def empty_router_def method_matches_def parse_a_b split_a_x
      match_loop_step match_loop_end emplace_def)

lemma match_loop_params_iff:
  assumes "match_loop segs parts 0 Map.empty = Some ps"
  shows "ps n = Some v \<longleftrightarrow>
     (\<exists>i<length segs. names_param (segs ! i) n \<and> parts ! i = v
        \<and> (\<forall>k<i. \<not> names_param (segs ! k) n))"
proof
  assume v: "ps n = Some v"
  have "\<exists>j. j < length segs \<and> names_param (segs ! j) n"
  proof (rule ccontr)
    assume "\<not> (\<exists>j. j < length segs \<and> names_param (segs ! j) n)"
    then have "\<forall>j. 0 \<le> j \<and> j < length segs \<longrightarrow> \<not> names_param (segs ! j) n"
      by blast
    with assms have "ps n = Map.empty n"
      by (rule match_loop_absent)
    with v show False by simp
  qed
  then obtain i where i: "i < length segs \<and> names_param (segs ! i) n"
    and least: "\<forall>k<i. \<not> (k < length segs \<and> names_param (segs ! k) n)"
    using exists_least_iff [of "\<lambda>j. j < length segs \<and> names_param (segs ! j) n"] by blast
  have first: "\<forall>k. 0 \<le> k \<and> k < i \<longrightarrow> \<not> names_param (segs ! k) n"
    using i least by auto
  have "ps n = Some (parts ! i)"
    using assms _ _ _ _ first
    by (rule match_loop_first) (use i in simp_all)
  with v have "parts ! i = v" by simp
  with i first show "\<exists>i<length segs. names_param (segs ! i) n \<and> parts ! i = v
        \<and> (\<forall>k<i. \<not> names_param (segs ! k) n)"
    by auto
next
  assume "\<exists>i<length segs. names_param (segs ! i) n \<and> parts ! i = v
        \<and> (\<forall>k<i. \<not> names_param (segs ! k) n)"
  then obtain i where i: "i < length segs" "names_param (segs ! i) n" "parts ! i = v"
    and first: "\<forall>k. 0 \<le> k \<and> k < i \<longrightarrow> \<not> names_param (segs ! k) n"
    by auto
  have "ps n = Some (parts ! i)"
    using assms _ _ i(1,2) first
    by (rule match_loop_first) simp_all
  with i(3) show "ps n = Some v" by simp
qed

lemma match_loop_all_static:
  "\<forall>s \<in> set segs. kind s = Static \<Longrightarrow> match_loop segs (map text segs) i ps = Some ps"
proof (induction d \<equiv> "length segs - i" arbitrary: i)
  case 0
  then show ?case by (simp add: match_loop_end)
next
  case (Suc d)
  then have i: "i < length segs" and d: "d = length segs - Suc i"
    by simp_all
  have "kind (segs ! i) = Static"
    using Suc.prems i by simp
  then show ?case
    using Suc.hyps(1) [OF d Suc.prems] i by (simp add: match_loop_step [OF i])
qed

lemma spec_classify_static_text: "kind (spec_classify tok) = Static \<Longrightarrow> text (spec_classify tok) = tok"
  by (auto simp: spec_classify_def split: if_splits)

lemma static_pattern_tokens:
  assumes "\<forall>s \<in> set (parse_pattern pat). kind s = Static"
  shows "split_segments pat = map text (parse_pattern pat)"
proof -
  have "\<forall>tok \<in> set (split_segments pat). text (spec_classify tok) = tok"
    using assms by (auto simp: parse_pattern_def parse_loop_map spec_classify_static_text)
  then have "map (\<lambda>tok. text (spec_classify tok)) (split_segments pat) = split_segments pat"
    by (simp add: map_idI)
  then show ?thesis
    by (simp add: parse_pattern_def parse_loop_map comp_def)
qed

lemma static_pattern_matches_itself:
  assumes "\<forall>s \<in> set (parse_pattern pat). kind s = Static"
  shows "match (add empty_router rm pat h) rm pat = Some \<lparr> Match.handler = h, params = Map.empty \<rparr>"
proof -
  have "match_loop (parse_pattern pat) (split_segments pat) 0 Map.empty = Some Map.empty"
    unfolding static_pattern_tokens [OF assms] using assms by (rule match_loop_all_static)
  moreover have "length (parse_pattern pat) = length (split_segments pat)"
    by (simp add: parse_pattern_def parse_loop_map)
  ultimately show ?thesis
    by (simp add: match_def add_def empty_router_def method_matches_def)
qed

lemma find_passes: "find P xs = Some x \<Longrightarrow> P x"
  by (induction xs) (auto split: if_splits)

lemma selected_route_params:
  assumes "find (\<lambda>r. route_passes r m (split_segments p)) (routes router) = Some r"
  shows "\<exists>ps. match_loop (segments r) (split_segments p) 0 Map.empty = Some ps
     \<and> match router m p = Some \<lparr> Match.handler = Route.handler r, params = ps \<rparr>"
proof -
  have "route_passes r m (split_segments p)"
    using assms by (rule find_passes)
  then obtain ps where ps: "match_loop (segments r) (split_segments p) 0 Map.empty = Some ps"
    by (auto simp: route_passes_def)
  have "match router m p = Some \<lparr> Match.handler = Route.handler r, params = ps \<rparr>"
    by (simp add: match_def match_routes_find assms ps)
  with ps show ?thesis by blast
qed

lemma split_a_1_2: "split_segments ''/a/1/2'' = [''a'', ''1'', ''2'']"
  by code_simp

lemma parse_a_x_x:
  "parse_pattern ''/a/:x/:x'' = [\<lparr> kind = Static, text = ''a'' \<rparr>,
     \<lparr> kind = Param, text = ''x'' \<rparr>, \<lparr> kind = Param, text = ''x'' \<rparr>]"
  by code_simp

lemma match_a_x_x:
  "match (add empty_router Get ''/a/:x/:x'' ok_handler) Get ''/a/1/2''
     = Some \<lparr> Match.handler = ok_handler, params = [''x'' \<mapsto> ''1''] \<rparr>"
  by (simp add: match_def add_def empty_router_def method_matches_def parse_a_x_x split_a_1_2
      match_loop_step match_loop_end emplace_def)

lemma match_loop_None_from_start:
  "match_loop segs parts 0 Map.empty = None \<longleftrightarrow>
     (\<exists>i<length segs. kind (segs ! i) = Static \<and> parts ! i \<noteq> text (segs ! i))"
  by (simp add: match_loop_None_iff)

lemma static_mismatch_continues:
  "match_loop (segments r) parts 0 Map.empty = None \<Longrightarrow>
   match_routes (r # rs) m parts = match_routes rs m parts"
  by simp

lemma split_7_99: "split_segments ''/7/99'' = [''7'', ''99'']"
  by code_simp

lemma parse_id_id:
  "parse_pattern ''/{id}/:id'' = [\<lparr> kind = Param, text = ''id'' \<rparr>, \<lparr> kind = Param, text = ''id'' \<rparr>]"
  by code_simp

lemma match_id_id:
  "match (add empty_router Get ''/{id}/:id'' ok_handler) Get ''/7/99''
     = Some \<lparr> Match.handler = ok_handler, params = [''id'' \<mapsto> ''7''] \<rparr>"
  by (simp add: match_def add_def empty_router_def method_matches_def parse_id_id split_7_99
      match_loop_step match_loop_end emplace_def)

lemma split_posts: "split_segments ''/posts/7/comments/99/'' = [''posts'', ''7'', ''comments'', ''99'']"
  by code_simp

lemma parse_posts:
  "parse_pattern ''/posts/{postId}/comments/{id}'' =
     [\<lparr> kind = Static, text = ''posts'' \<rparr>, \<lparr> kind = Param, text = ''postId'' \<rparr>,
      \<lparr> kind = Static, text = ''comments'' \<rparr>, \<lparr> kind = Param, text = ''id'' \<rparr>]"
  by code_simp

lemma match_loop_posts:
  "match_loop (parse_pattern ''/posts/{postId}/comments/{id}'')
     (split_segments ''/posts/7/comments/99/'') 0 Map.empty
     = Some [''postId'' \<mapsto> ''7'', ''id'' \<mapsto> ''99'']"
  by (simp add: parse_posts split_posts match_loop_step match_loop_end emplace_def)

section \<open>The claims\<close>

text \<open>
  C1, as the code has it. Let \<open>r\<close> be the route that \<^verbatim>\<open>match\<close> selects (the first route in
  registration order that passes the three checks). For every parameter name \<open>n\<close> that occurs
  in the pattern of \<open>r\<close>, once or several times, the value stored under \<open>n\<close> is the path part
  at the position of the first Param segment called \<open>n\<close>: \<^verbatim>\<open>emplace\<close> keeps an existing entry,
  so a later occurrence of the name does not overwrite the earlier one.
\<close>

theorem first_occurrence_wins:
  assumes "find (\<lambda>r. route_passes r m (split_segments p)) (routes router) = Some r"
    and "i < length (segments r)"
    and "names_param (segments r ! i) n"
    and "\<forall>k<i. \<not> names_param (segments r ! k) n"
  shows "param_of (match router m p) n = Some (split_segments p ! i)"
proof -
  obtain ps where ps: "match_loop (segments r) (split_segments p) 0 Map.empty = Some ps"
    and mt: "match router m p = Some \<lparr> Match.handler = Route.handler r, params = ps \<rparr>"
    using selected_route_params [OF assms(1)] by blast
  have "\<forall>k. 0 \<le> k \<and> k < i \<longrightarrow> \<not> names_param (segments r ! k) n"
    using assms(4) by simp
  with ps have "ps n = Some (split_segments p ! i)"
    using assms(2,3) by (intro match_loop_first [where i = 0 and ps = Map.empty]) simp_all
  then show ?thesis
    by (simp add: mt param_of_def)
qed

text \<open>The pattern \<open>/a/:x/:x\<close> on the path \<open>/a/1/2\<close>: the name \<open>x\<close> occurs at positions 1 and
  2, and the value stored is the part at position 1.\<close>

theorem first_occurrence_wins_witness:
  "find (\<lambda>r. route_passes r Get (split_segments ''/a/1/2''))
       (routes (add empty_router Get ''/a/:x/:x'' ok_handler)) = Some a_x_x_route
   \<and> names_param (segments a_x_x_route ! 1) ''x''
   \<and> names_param (segments a_x_x_route ! 2) ''x''
   \<and> \<not> names_param (segments a_x_x_route ! 0) ''x''
   \<and> split_segments ''/a/1/2'' ! 1 = ''1''
   \<and> param_of (match (add empty_router Get ''/a/:x/:x'' ok_handler) Get ''/a/1/2'') ''x''
       = Some ''1''"
proof -
  let ?R = "add empty_router Get ''/a/:x/:x'' ok_handler"
  have pass: "route_passes a_x_x_route Get (split_segments ''/a/1/2'')"
    by (simp add: route_passes_def a_x_x_route_def method_matches_def parse_a_x_x split_a_1_2
        match_loop_step match_loop_end emplace_def)
  have sel: "find (\<lambda>r. route_passes r Get (split_segments ''/a/1/2'')) (routes ?R) = Some a_x_x_route"
    using pass by (simp add: add_def empty_router_def a_x_x_route_def)
  have len: "1 < length (segments a_x_x_route)"
    by (simp add: a_x_x_route_def parse_a_x_x)
  have n1: "names_param (segments a_x_x_route ! 1) ''x''"
    and n2: "names_param (segments a_x_x_route ! 2) ''x''"
    by (simp_all add: a_x_x_route_def parse_a_x_x names_param_def)
  have first: "\<forall>k<1. \<not> names_param (segments a_x_x_route ! k) ''x''"
    by (simp add: a_x_x_route_def parse_a_x_x names_param_def)
  have part: "split_segments ''/a/1/2'' ! 1 = ''1''"
    by (simp add: split_a_1_2)
  have "param_of (match ?R Get ''/a/1/2'') ''x'' = Some (split_segments ''/a/1/2'' ! 1)"
    using sel len n1 first by (rule first_occurrence_wins)
  moreover have "\<not> names_param (segments a_x_x_route ! 0) ''x''"
    using first by simp
  ultimately show ?thesis
    using sel n1 n2 part by simp
qed

text \<open>The claim as the specification words it (the last occurrence wins) fails on the same
  input: the value stored under \<open>x\<close> is \<open>1\<close>, not \<open>2\<close>.\<close>

theorem last_occurrence_does_not_win:
  "parse_pattern ''/a/:x/:x'' = [\<lparr> kind = Static, text = ''a'' \<rparr>,
     \<lparr> kind = Param, text = ''x'' \<rparr>, \<lparr> kind = Param, text = ''x'' \<rparr>]
   \<and> split_segments ''/a/1/2'' = [''a'', ''1'', ''2'']
   \<and> param_of (match (add empty_router Get ''/a/:x/:x'' ok_handler) Get ''/a/1/2'') ''x'' = Some ''1''
   \<and> param_of (match (add empty_router Get ''/a/:x/:x'' ok_handler) Get ''/a/1/2'') ''x'' \<noteq> Some ''2''"
  by (simp add: parse_a_x_x split_a_1_2 match_a_x_x param_of_def)

text \<open>
  C2. \<^verbatim>\<open>match\<close> returns the first route, in registration order, that passes the method
  check, the segment-count check and the positional comparison, with the handler of that
  route and the parameters captured on it; routes after it play no part. When the table is
  \<open>pre @ r # post\<close>, no route of \<open>pre\<close> passes and \<open>r\<close> passes, the result is \<open>r\<close> whatever
  \<open>post\<close> holds. With \<open>/users/:id\<close> registered before \<open>/users/me\<close>, the path \<open>/users/me\<close>
  goes to the earlier route, which has a Param segment where the later one has a Static one.
\<close>

theorem first_match_wins:
  "match router m p =
     (case find (\<lambda>r. route_passes r m (split_segments p)) (routes router) of
        None \<Rightarrow> None
      | Some r \<Rightarrow> Some \<lparr> Match.handler = Route.handler r,
                       params = the (match_loop (segments r) (split_segments p) 0 Map.empty) \<rparr>)
   \<and> (routes router = pre @ r # post
        \<and> (\<forall>r' \<in> set pre. \<not> route_passes r' m (split_segments p))
        \<and> route_passes r m (split_segments p)
      \<longrightarrow> (\<exists>ps. match_loop (segments r) (split_segments p) 0 Map.empty = Some ps
             \<and> match router m p = Some \<lparr> Match.handler = Route.handler r, params = ps \<rparr>))
   \<and> match (add (add empty_router Get ''/users/:id'' h1) Get ''/users/me'' h2) Get ''/users/me''
       = Some \<lparr> Match.handler = h1, params = [''id'' \<mapsto> ''me''] \<rparr>"
proof (intro conjI impI)
  show "match router m p =
     (case find (\<lambda>r. route_passes r m (split_segments p)) (routes router) of
        None \<Rightarrow> None
      | Some r \<Rightarrow> Some \<lparr> Match.handler = Route.handler r,
                       params = the (match_loop (segments r) (split_segments p) 0 Map.empty) \<rparr>)"
    unfolding match_def by (rule match_routes_find)
next
  assume "routes router = pre @ r # post
        \<and> (\<forall>r' \<in> set pre. \<not> route_passes r' m (split_segments p))
        \<and> route_passes r m (split_segments p)"
  then show "\<exists>ps. match_loop (segments r) (split_segments p) 0 Map.empty = Some ps
             \<and> match router m p = Some \<lparr> Match.handler = Route.handler r, params = ps \<rparr>"
    using first_match_prefix by blast
next
  show "match (add (add empty_router Get ''/users/:id'' h1) Get ''/users/me'' h2) Get ''/users/me''
       = Some \<lparr> Match.handler = h1, params = [''id'' \<mapsto> ''me''] \<rparr>"
    by (rule param_before_static)
qed

text \<open>Both routes pass on \<open>/users/me\<close>; the one registered first is returned.\<close>

theorem first_match_wins_witness:
  "routes (add (add empty_router Get ''/users/:id'' ok_handler) Get ''/users/me'' items_handler)
     = [] @ users_id_route # [users_me_route]
   \<and> route_passes users_id_route Get (split_segments ''/users/me'')
   \<and> route_passes users_me_route Get (split_segments ''/users/me'')
   \<and> match (add (add empty_router Get ''/users/:id'' ok_handler) Get ''/users/me'' items_handler)
        Get ''/users/me''
       = Some \<lparr> Match.handler = ok_handler, params = [''id'' \<mapsto> ''me''] \<rparr>"
proof -
  let ?R = "add (add empty_router Get ''/users/:id'' ok_handler) Get ''/users/me'' items_handler"
  have rs: "routes ?R = [] @ users_id_route # [users_me_route]"
    by (simp add: add_def empty_router_def users_id_route_def users_me_route_def)
  have p1: "route_passes users_id_route Get (split_segments ''/users/me'')"
    by (simp add: route_passes_def users_id_route_def method_matches_def
        split_users_me parse_users_id match_loop_users_id)
  have p2: "route_passes users_me_route Get (split_segments ''/users/me'')"
    by (simp add: route_passes_def users_me_route_def method_matches_def
        split_users_me parse_users_me match_loop_users_me)
  have none: "\<forall>r' \<in> set []. \<not> route_passes r' Get (split_segments ''/users/me'')"
    by simp
  have ml: "match_loop (segments users_id_route) (split_segments ''/users/me'') 0 Map.empty
      = Some [''id'' \<mapsto> ''me'']"
    by (simp add: users_id_route_def split_users_me parse_users_id match_loop_users_id)
  have "\<exists>ps. match_loop (segments users_id_route) (split_segments ''/users/me'') 0 Map.empty = Some ps
      \<and> match ?R Get ''/users/me'' = Some \<lparr> Match.handler = Route.handler users_id_route, params = ps \<rparr>"
    using first_match_wins [of ?R Get "''/users/me''" "[]" users_id_route "[users_me_route]"
        ok_handler items_handler] rs none p1
    by blast
  then have "match ?R Get ''/users/me''
      = Some \<lparr> Match.handler = ok_handler, params = [''id'' \<mapsto> ''me''] \<rparr>"
    using ml by (auto simp: users_id_route_def)
  with rs p1 p2 show ?thesis by blast
qed

text \<open>
  C3. The tokens that \<^verbatim>\<open>parse_pattern\<close> works on are the tokens of the specification: the
  pattern cut at the first \<open>?\<close>, without its leading and trailing slashes, split at every
  slash. \<^verbatim>\<open>parse_pattern\<close> turns every one of them into exactly one segment, in order,
  classified as the specification says: a token \<open>:name\<close> with a non-empty name and a token
  \<open>{name}\<close> with a non-empty name become Param segments called \<open>name\<close>, the token \<open>{}\<close>
  becomes a Static segment with text \<open>{}\<close>, and every other token becomes a Static segment
  whose text is the token. The function is total: it has a value, with one segment for each
  token, on every string. On \<open>/users/:id/posts/{postId}/{}/:\<close> it gives the six segments
  Static \<open>users\<close>, Param \<open>id\<close>, Static \<open>posts\<close>, Param \<open>postId\<close>, Static \<open>{}\<close> and Static
  \<open>:\<close>; on \<open>/\<close> it gives no segment.
\<close>

theorem parse_pattern_classifies:
  "parse_pattern p = map spec_classify (spec_tokens p)
   \<and> split_segments p = spec_tokens p
   \<and> parse_pattern p = map spec_classify (split_segments p)
   \<and> length (parse_pattern p) = length (spec_tokens p)
   \<and> length (parse_pattern p) = length (split_segments p)
   \<and> spec_classify (CHR '':'' # c # cs) = \<lparr> kind = Param, text = c # cs \<rparr>
   \<and> spec_classify (CHR ''{'' # c # cs @ ''}'') = \<lparr> kind = Param, text = c # cs \<rparr>
   \<and> spec_classify ''{}'' = \<lparr> kind = Static, text = ''{}'' \<rparr>
   \<and> spec_tokens ''/users/:id/posts/{postId}/{}/:''
       = [''users'', '':id'', ''posts'', ''{postId}'', ''{}'', '':'']
   \<and> parse_pattern ''/users/:id/posts/{postId}/{}/:'' =
       [\<lparr> kind = Static, text = ''users'' \<rparr>, \<lparr> kind = Param, text = ''id'' \<rparr>,
        \<lparr> kind = Static, text = ''posts'' \<rparr>, \<lparr> kind = Param, text = ''postId'' \<rparr>,
        \<lparr> kind = Static, text = ''{}'' \<rparr>, \<lparr> kind = Static, text = '':'' \<rparr>]
   \<and> parse_pattern ''/'' = []"
proof -
  have toks: "split_segments p = spec_tokens p"
    by (rule split_segments_spec_tokens)
  have parsed: "parse_pattern p = map spec_classify (split_segments p)"
    by (simp add: parse_pattern_def parse_loop_map)
  have classes:
    "spec_classify (CHR '':'' # c # cs) = \<lparr> kind = Param, text = c # cs \<rparr>"
    "spec_classify (CHR ''{'' # c # cs @ ''}'') = \<lparr> kind = Param, text = c # cs \<rparr>"
    "spec_classify ''{}'' = \<lparr> kind = Static, text = ''{}'' \<rparr>"
    by (simp_all add: spec_classify_def butlast_append)
  show ?thesis
    using toks parsed classes spec_tokens_example parse_example parse_root
    by simp
qed

text \<open>
  C4. \<^verbatim>\<open>match\<close> can only return a route whose number of segments equals the number of parts
  of the path, and it returns nothing when no route has that number. Registering the pattern
  \<open>/a/:b\<close> changes nothing for the paths \<open>/a\<close> and \<open>/a/b/c\<close>, and alone it matches neither.
\<close>

theorem segment_count_must_agree:
  "(match router m p = Some mt
      \<longrightarrow> (\<exists>r \<in> set (routes router). length (segments r) = length (split_segments p)
             \<and> Route.handler r = Match.handler mt))
   \<and> ((\<forall>r \<in> set (routes router). length (segments r) \<noteq> length (split_segments p))
      \<longrightarrow> match router m p = None)
   \<and> match (add router rm ''/a/:b'' h) m ''/a'' = match router m ''/a''
   \<and> match (add router rm ''/a/:b'' h) m ''/a/b/c'' = match router m ''/a/b/c''
   \<and> match (add empty_router rm ''/a/:b'' h) m ''/a'' = None
   \<and> match (add empty_router rm ''/a/:b'' h) m ''/a/b/c'' = None"
proof (intro conjI impI)
  assume "match router m p = Some mt"
  then show "\<exists>r \<in> set (routes router). length (segments r) = length (split_segments p)
             \<and> Route.handler r = Match.handler mt"
    unfolding match_def by (rule match_routes_Some_route)
next
  assume "\<forall>r \<in> set (routes router). length (segments r) \<noteq> length (split_segments p)"
  then show "match router m p = None"
    unfolding match_def by (rule match_routes_no_count)
next
  show "match (add router rm ''/a/:b'' h) m ''/a'' = match router m ''/a''"
    by (rule a_b_skips_a)
  show "match (add router rm ''/a/:b'' h) m ''/a/b/c'' = match router m ''/a/b/c''"
    by (rule a_b_skips_a_b_c)
  show "match (add empty_router rm ''/a/:b'' h) m ''/a'' = None"
    by (simp add: a_b_skips_a) (simp add: match_def empty_router_def)
  show "match (add empty_router rm ''/a/:b'' h) m ''/a/b/c'' = None"
    by (simp add: a_b_skips_a_b_c) (simp add: match_def empty_router_def)
qed

text \<open>The pattern \<open>/a/:b\<close> matches \<open>/a/x\<close>, two segments against two parts, and not \<open>/a\<close>.\<close>

theorem segment_count_must_agree_witness:
  "match (add empty_router Get ''/a/:b'' ok_handler) Get ''/a/x''
     = Some \<lparr> Match.handler = ok_handler, params = [''b'' \<mapsto> ''x''] \<rparr>
   \<and> length (parse_pattern ''/a/:b'') = length (split_segments ''/a/x'')
   \<and> (\<exists>r \<in> set (routes (add empty_router Get ''/a/:b'' ok_handler)).
         length (segments r) = length (split_segments ''/a/x'')
         \<and> Route.handler r = ok_handler)
   \<and> map (\<lambda>r. length (segments r)) (routes (add empty_router Get ''/a/:b'' ok_handler)) = [2]
   \<and> length (split_segments ''/a'') = 1
   \<and> match (add empty_router Get ''/a/:b'' ok_handler) Get ''/a'' = None"
proof -
  let ?R = "add empty_router Get ''/a/:b'' ok_handler"
  let ?mt = "\<lparr> Match.handler = ok_handler, params = [''b'' \<mapsto> ''x''] \<rparr>"
  note inst = segment_count_must_agree [of ?R Get _ ?mt Get ok_handler]
  have hit: "match ?R Get ''/a/x'' = Some ?mt"
    by (rule match_a_x)
  have len: "length (parse_pattern ''/a/:b'') = length (split_segments ''/a/x'')"
    by (simp add: parse_a_b split_a_x)
  have ex: "\<exists>r \<in> set (routes ?R). length (segments r) = length (split_segments ''/a/x'')
         \<and> Route.handler r = ok_handler"
    using inst [of "''/a/x''"] hit by simp
  have counts: "\<forall>r \<in> set (routes ?R). length (segments r) \<noteq> length (split_segments ''/a'')"
    by (simp add: add_def empty_router_def parse_a_b split_a)
  have miss: "match ?R Get ''/a'' = None"
    using inst [of "''/a''"] counts by blast
  have lens: "map (\<lambda>r. length (segments r)) (routes ?R) = [2]"
    by (simp add: add_def empty_router_def parse_a_b)
  have one: "length (split_segments ''/a'') = 1"
    by (simp add: split_a)
  from hit len ex lens one miss show ?thesis by blast
qed

text \<open>
  C5, as the code has it. For a route that reaches the positional comparison (its segment
  count equals the part count): the comparison fails exactly when some Static segment differs
  from the path part at its position, and then scanning goes on with the next route; a Param
  segment never makes it fail. On success the mapping holds, under each name \<open>n\<close>, exactly
  the path part, unchanged, at the position of the first Param segment called \<open>n\<close>, and
  nothing under any other name: a Param segment captures its part under its name unless an
  earlier segment of the route has captured that name already. A pattern of Static segments
  only, matched against its own texts, succeeds with the empty mapping, and so does a
  registered all-static pattern matched against itself as the path.
\<close>

theorem positional_comparison:
  assumes "length segs = length parts"
  shows "(match_loop segs parts 0 Map.empty = None \<longleftrightarrow>
            (\<exists>i<length segs. kind (segs ! i) = Static \<and> parts ! i \<noteq> text (segs ! i)))
   \<and> (match_loop segs parts 0 Map.empty = Some ps \<longrightarrow>
        (ps n = Some v \<longleftrightarrow>
           (\<exists>i<length segs. names_param (segs ! i) n \<and> parts ! i = v
              \<and> (\<forall>k<i. \<not> names_param (segs ! k) n))))
   \<and> (segs = segments r \<and> match_loop segs parts 0 Map.empty = None \<longrightarrow>
        match_routes (r # rs) m parts = match_routes rs m parts)
   \<and> ((\<forall>s \<in> set segs. kind s = Static) \<and> parts = map text segs \<longrightarrow>
        match_loop segs parts 0 Map.empty = Some Map.empty)
   \<and> ((\<forall>s \<in> set (parse_pattern pat). kind s = Static) \<longrightarrow>
        match (add empty_router rm pat h) rm pat
          = Some \<lparr> Match.handler = h, params = Map.empty \<rparr>)"
proof (intro conjI impI)
  show "match_loop segs parts 0 Map.empty = None \<longleftrightarrow>
            (\<exists>i<length segs. kind (segs ! i) = Static \<and> parts ! i \<noteq> text (segs ! i))"
    by (rule match_loop_None_from_start)
next
  assume "match_loop segs parts 0 Map.empty = Some ps"
  then show "ps n = Some v \<longleftrightarrow>
           (\<exists>i<length segs. names_param (segs ! i) n \<and> parts ! i = v
              \<and> (\<forall>k<i. \<not> names_param (segs ! k) n))"
    by (rule match_loop_params_iff)
next
  assume "segs = segments r \<and> match_loop segs parts 0 Map.empty = None"
  then show "match_routes (r # rs) m parts = match_routes rs m parts"
    using static_mismatch_continues by blast
next
  assume "(\<forall>s \<in> set segs. kind s = Static) \<and> parts = map text segs"
  then show "match_loop segs parts 0 Map.empty = Some Map.empty"
    using match_loop_all_static by blast
next
  assume "\<forall>s \<in> set (parse_pattern pat). kind s = Static"
  then show "match (add empty_router rm pat h) rm pat
          = Some \<lparr> Match.handler = h, params = Map.empty \<rparr>"
    by (rule static_pattern_matches_itself)
qed

text \<open>The route \<open>/posts/{postId}/comments/{id}\<close> of tests/test_basic.cpp on the path
  \<open>/posts/7/comments/99/\<close>, and the all-static route \<open>/health\<close> on itself.\<close>

theorem positional_comparison_witness:
  "length (parse_pattern ''/posts/{postId}/comments/{id}'')
     = length (split_segments ''/posts/7/comments/99/'')
   \<and> match_loop (parse_pattern ''/posts/{postId}/comments/{id}'')
        (split_segments ''/posts/7/comments/99/'') 0 Map.empty
       = Some [''postId'' \<mapsto> ''7'', ''id'' \<mapsto> ''99'']
   \<and> (\<exists>i<length (parse_pattern ''/posts/{postId}/comments/{id}'').
         names_param (parse_pattern ''/posts/{postId}/comments/{id}'' ! i) ''id''
         \<and> split_segments ''/posts/7/comments/99/'' ! i = ''99''
         \<and> (\<forall>k<i. \<not> names_param (parse_pattern ''/posts/{postId}/comments/{id}'' ! k) ''id''))
   \<and> map kind (parse_pattern ''/health'') = [Static]
   \<and> match (add empty_router Get ''/health'' ok_handler) Get ''/health''
       = Some \<lparr> Match.handler = ok_handler, params = Map.empty \<rparr>"
proof -
  let ?segs = "parse_pattern ''/posts/{postId}/comments/{id}''"
  let ?parts = "split_segments ''/posts/7/comments/99/''"
  let ?ps = "[''postId'' \<mapsto> ''7'', ''id'' \<mapsto> ''99'']"
  have len: "length ?segs = length ?parts"
    by (simp add: parse_posts split_posts)
  note inst = positional_comparison [OF len, of ?ps "''id''" "''99''" _ _ _ "''/health''" Get ok_handler]
  have run: "match_loop ?segs ?parts 0 Map.empty = Some ?ps"
    by (rule match_loop_posts)
  have "?ps ''id'' = Some ''99''"
    by simp
  with inst run have idx: "\<exists>i<length ?segs. names_param (?segs ! i) ''id'' \<and> ?parts ! i = ''99''
         \<and> (\<forall>k<i. \<not> names_param (?segs ! k) ''id'')"
    by blast
  have static: "\<forall>s \<in> set (parse_pattern ''/health''). kind s = Static"
    by (simp add: parse_health)
  with inst have "match (add empty_router Get ''/health'' ok_handler) Get ''/health''
       = Some \<lparr> Match.handler = ok_handler, params = Map.empty \<rparr>"
    by blast
  moreover have "map kind (parse_pattern ''/health'') = [Static]"
    by (simp add: parse_health)
  ultimately show ?thesis
    using len run idx by blast
qed

text \<open>The claim as the specification words it (every Param segment captures the part at its
  position under its name) fails for \<open>/{id}/:id\<close> on \<open>/7/99\<close>: the second segment is a
  parameter called \<open>id\<close>, its part is \<open>99\<close>, and the mapping has \<open>7\<close> under \<open>id\<close>.\<close>

theorem repeated_param_not_captured:
  "parse_pattern ''/{id}/:id'' = [\<lparr> kind = Param, text = ''id'' \<rparr>, \<lparr> kind = Param, text = ''id'' \<rparr>]
   \<and> split_segments ''/7/99'' = [''7'', ''99'']
   \<and> param_of (match (add empty_router Get ''/{id}/:id'' ok_handler) Get ''/7/99'') ''id'' = Some ''7''
   \<and> param_of (match (add empty_router Get ''/{id}/:id'' ok_handler) Get ''/7/99'') ''id'' \<noteq> Some ''99''"
  by (simp add: parse_id_id split_7_99 match_id_id param_of_def)

text \<open>
  C6. A route passes the method check exactly when its method is \<open>Any\<close> or equals the
  request method. With only GET \<open>/health\<close> registered, POST \<open>/health\<close> has no match and
  \<^verbatim>\<open>dispatch\<close> returns false.
\<close>

theorem method_check:
  "(method_matches rm qm \<longleftrightarrow> rm = Any \<or> rm = qm)
   \<and> match (add empty_router Get ''/health'' h) Post ''/health'' = None
   \<and> fst (dispatch (add empty_router Get ''/health'' h)
            \<lparr> Request.method = Post, path = ''/health'', params = ps \<rparr> res) = False"
  by (simp add: method_matches_def match_def add_def empty_router_def dispatch_def
      split_health parse_health)

text \<open>
  C7. A query suffix is ignored: appending \<open>?\<close> and any text \<open>q\<close> to a path changes neither
  its tokens nor the result of \<^verbatim>\<open>match\<close> (the matched handler and the parameter mapping), and
  a pattern compiles to the same segments with or without such a suffix.
\<close>

theorem query_suffix_ignored:
  "split_segments (p @ ''?'' @ q) = split_segments p
   \<and> match router m (p @ ''?'' @ q) = match router m p
   \<and> parse_pattern (p @ ''?'' @ q) = parse_pattern p"
  by (simp only: split_segments_def match_def parse_pattern_def strip_query_append_query
      simp_thms)

text \<open>
  C8. Leading and trailing slashes are tolerated. \<open>/a/\<close>, \<open>/a\<close> and \<open>//a//\<close> all tokenise to
  the single token \<open>a\<close>; adding any number of slashes in front of a string and behind it
  does not change its tokens; and \<^verbatim>\<open>trim_slashes\<close> returns its argument without a block of
  slashes at the front and a block of slashes at the back, the result neither starting nor
  ending with a slash.
\<close>

theorem slashes_tolerated:
  "split_segments ''/a/'' = [''a''] \<and> split_segments ''/a'' = [''a'']
   \<and> split_segments ''//a//'' = [''a'']
   \<and> split_segments (replicate n (CHR ''/'') @ s @ replicate k (CHR ''/'')) = split_segments s
   \<and> (\<exists>i j. s = replicate i (CHR ''/'') @ trim_slashes s @ replicate j (CHR ''/''))
   \<and> trim_slashes s \<noteq> CHR ''/'' # t \<and> trim_slashes s \<noteq> t @ ''/''"
  using split_a_examples split_segments_pad [of n s k] trim_slashes_decomp [of s]
    trim_slashes_no_leading [of s t] trim_slashes_no_trailing [of s t]
  by blast

text \<open>
  C9. When \<^verbatim>\<open>match\<close> has no result for the request's method and path, \<^verbatim>\<open>dispatch\<close> returns
  false and leaves the response and the request (its parameter mapping included) as they
  were; this is so for every request on a router without routes.
\<close>

theorem dispatch_no_match:
  "(match router (Request.method req) (path req) = None
      \<longrightarrow> dispatch router req res = (False, req, res))
   \<and> dispatch empty_router req res = (False, req, res)"
  by (simp add: dispatch_def match_def empty_router_def)

theorem dispatch_no_match_witness:
  "match (add empty_router Get ''/health'' ok_handler) Post ''/health'' = None
   \<and> dispatch (add empty_router Get ''/health'' ok_handler)
        \<lparr> Request.method = Post, path = ''/health'', params = [''k'' \<mapsto> ''v''] \<rparr>
        \<lparr> status = 404, body = ''unset'' \<rparr>
     = (False, \<lparr> Request.method = Post, path = ''/health'', params = [''k'' \<mapsto> ''v''] \<rparr>,
        \<lparr> status = 404, body = ''unset'' \<rparr>)"
proof -
  have none: "match (add empty_router Get ''/health'' ok_handler) Post ''/health'' = None"
    by (simp add: method_matches_def match_def add_def empty_router_def
        split_health parse_health)
  show ?thesis
    using none
      dispatch_no_match [of "add empty_router Get ''/health'' ok_handler"
        "\<lparr> Request.method = Post, path = ''/health'', params = [''k'' \<mapsto> ''v''] \<rparr>"
        "\<lparr> status = 404, body = ''unset'' \<rparr>"]
    by simp
qed

text \<open>
  C10. The wildcard is tested on the route's side only. A request whose method is \<open>Any\<close>
  passes the method check of a route exactly when that route was registered with \<open>Any\<close>,
  while a route registered with \<open>Any\<close> accepts every request method; so \<^verbatim>\<open>match\<close> with
  request method \<open>Any\<close> gives what it gives on the table without the routes of a specific
  verb, and finds nothing when only GET \<open>/health\<close> is registered.
\<close>

theorem any_request_matches_any_routes_only:
  "(method_matches rm Any \<longleftrightarrow> rm = Any)
   \<and> method_matches Any qm
   \<and> match router Any p
       = match (router\<lparr> routes := filter (\<lambda>r. Route.method r = Any) (routes router) \<rparr>) Any p
   \<and> match (add empty_router Get ''/health'' h) Any ''/health'' = None"
proof -
  have "match (add empty_router Get ''/health'' h) Any ''/health'' = None"
    by (simp add: method_matches_def match_def add_def empty_router_def
        split_health parse_health)
  moreover have "match router Any p
       = match (router\<lparr> routes := filter (\<lambda>r. Route.method r = Any) (routes router) \<rparr>) Any p"
    using match_routes_Any_filter [of "routes router" "split_segments p"]
    by (simp add: match_def)
  ultimately show ?thesis
    by (simp add: method_matches_def)
qed

end
